theory Spec2Isabelle
  imports Complex_Main
begin

section \<open>Python strings\<close>

text \<open>
  A Python \<open>str\<close> is modelled as a \<open>string\<close>: a list of characters with code points
  below 256.  \<open>str.lower()\<close> maps the upper-case letters of that range (A-Z, and the
  Latin-1 capitals except the multiplication sign) to their lower-case partners, 32
  code points further on.
\<close>

definition is_upper :: "char \<Rightarrow> bool" where
  "is_upper c = (let n = (of_char c :: nat) in
     (65 \<le> n \<and> n \<le> 90) \<or> (192 \<le> n \<and> n \<le> 222 \<and> n \<noteq> 215))"

definition char_lower :: "char \<Rightarrow> char" where
  "char_lower c = (if is_upper c then char_of (of_char c + (32 :: nat)) else c)"

definition lower :: "string \<Rightarrow> string" where
  "lower s = map char_lower s"

text \<open>\<open>startswith s q\<close>: the text \<open>s\<close> begins with \<open>q\<close>.\<close>

fun startswith :: "string \<Rightarrow> string \<Rightarrow> bool" where
  "startswith s [] = True"
| "startswith [] (d # q) = False"
| "startswith (c # s) (d # q) = (c = d \<and> startswith s q)"

text \<open>Python's \<open>q in s\<close> on strings: \<open>q\<close> occurs in \<open>s\<close> as a contiguous run.\<close>

fun str_in :: "string \<Rightarrow> string \<Rightarrow> bool" where
  "str_in q [] = (q = [])"
| "str_in q (c # s) = (startswith (c # s) q \<or> str_in q s)"

section \<open>Book records and the library\<close>

text \<open>
  \<open>add_book\<close> builds every record as a dict with the five keys
  \<open>title\<close>, \<open>author\<close>, \<open>year\<close>, \<open>genre\<close>, \<open>read\<close>, holding two strings, an integer,
  a string and a boolean.  The operations are modelled on lists of such records; equality
  of two records is equality of their five fields, as it is for the dicts.
\<close>

record book =
  title :: string
  author :: string
  year :: int
  genre :: string
  read :: bool

type_synonym library = "book list"

section \<open>JSON values and \<open>json.dump\<close>\<close>

text \<open>
  The values \<open>json.load\<close> can return and \<open>json.dump\<close> can write.  A dict is an
  association list in insertion order.  A float is kept as its literal; the model does no
  arithmetic on floats.
\<close>

datatype json =
    JNull
  | JBool bool
  | JInt int
  | JFloat string
  | JStr string
  | JList "json list"
  | JObj "(string \<times> json) list"

definition digit_char :: "nat \<Rightarrow> char" where
  "digit_char d = char_of (48 + d)"

function show_nat :: "nat \<Rightarrow> string" where
  "show_nat n = (if n < 10 then [digit_char n] else show_nat (n div 10) @ [digit_char (n mod 10)])"
  by pat_completeness auto
termination
  by (relation "measure id") auto

definition show_int :: "int \<Rightarrow> string" where
  "show_int i = (if i < 0 then CHR ''-'' # show_nat (nat (- i)) else show_nat (nat i))"

definition hex_char :: "nat \<Rightarrow> char" where
  "hex_char d = (if d < 10 then char_of (48 + d) else char_of (87 + d))"

text \<open>
  \<open>json.dump\<close> runs with \<open>ensure_ascii=True\<close>: inside a string literal the quote and the
  backslash are escaped, the five control characters with a short escape use it, the
  printable ASCII characters stand for themselves, and every other character is written
  as \<open>\u00XX\<close> with lower-case hex digits.
\<close>

definition escape_char :: "char \<Rightarrow> string" where
  "escape_char c =
     (if c = CHR 0x22 then [CHR 0x5C, CHR 0x22]
      else if c = CHR 0x5C then [CHR 0x5C, CHR 0x5C]
      else if c = CHR 0x0A then [CHR 0x5C, CHR ''n'']
      else if c = CHR 0x0D then [CHR 0x5C, CHR ''r'']
      else if c = CHR 0x09 then [CHR 0x5C, CHR ''t'']
      else if c = CHR 0x0C then [CHR 0x5C, CHR ''f'']
      else if c = CHR 0x08 then [CHR 0x5C, CHR ''b'']
      else if 32 \<le> (of_char c :: nat) \<and> (of_char c :: nat) \<le> 126 then [c]
      else [CHR 0x5C, CHR ''u'', CHR ''0'', CHR ''0'',
            hex_char (of_char c div 16), hex_char (of_char c mod 16)])"

definition encode_string :: "string \<Rightarrow> string" where
  "encode_string s = CHR 0x22 # concat (map escape_char s) @ [CHR 0x22]"

text \<open>With \<open>indent=4\<close> every item starts on a line of its own, four spaces per level.\<close>

definition newline_indent :: "nat \<Rightarrow> string" where
  "newline_indent level = CHR 0x0A # replicate (4 * level) CHR 0x20"

fun encode :: "nat \<Rightarrow> json \<Rightarrow> string"
  and encode_items :: "nat \<Rightarrow> json list \<Rightarrow> string"
  and encode_members :: "nat \<Rightarrow> (string \<times> json) list \<Rightarrow> string"
where
  "encode level JNull = ''null''"
| "encode level (JBool b) = (if b then ''true'' else ''false'')"
| "encode level (JInt i) = show_int i"
| "encode level (JFloat lit) = lit"
| "encode level (JStr s) = encode_string s"
| "encode level (JList []) = ''[]''"
| "encode level (JList (x # xs)) =
     ''['' @ newline_indent (Suc level) @ encode_items (Suc level) (x # xs)
       @ newline_indent level @ '']''"
| "encode level (JObj []) = ''{}''"
| "encode level (JObj (m # ms)) =
     ''{'' @ newline_indent (Suc level) @ encode_members (Suc level) (m # ms)
       @ newline_indent level @ ''}''"
| "encode_items level [] = []"
| "encode_items level [x] = encode level x"
| "encode_items level (x # y # xs) =
     encode level x @ '','' @ newline_indent level @ encode_items level (y # xs)"
| "encode_members level [] = []"
| "encode_members level [(k, v)] = encode_string k @ '': '' @ encode level v"
| "encode_members level ((k, v) # m # ms) =
     encode_string k @ '': '' @ encode level v @ '','' @ newline_indent level
       @ encode_members level (m # ms)"

definition json_dumps :: "json \<Rightarrow> string" where
  "json_dumps v = encode 0 v"

text \<open>The Python value of a book record and of a library: a dict, and a list of dicts.\<close>

definition book_json :: "book \<Rightarrow> json" where
  "book_json b = JObj [(''title'', JStr (title b)), (''author'', JStr (author b)),
     (''year'', JInt (year b)), (''genre'', JStr (genre b)), (''read'', JBool (read b))]"

definition library_json :: "library \<Rightarrow> json" where
  "library_json lib = JList (map book_json lib)"

section \<open>\<open>json.load\<close>\<close>

text \<open>
  The decoder of Python's \<open>json\<close> module on the model's texts: JSON with the module's
  extensions (\<open>NaN\<close>, \<open>Infinity\<close>, \<open>-Infinity\<close>), white space being space, tab, line
  feed and carriage return, and control characters refused inside string literals.  A
  \<open>\u\<close> escape of a code point from 256 on has no character in the model and is
  refused.  Limits of the interpreter (recursion depth, the number of digits of an
  integer) are not modelled.  \<open>None\<close> stands for \<open>JSONDecodeError\<close>.

  The scanner works on the rest of the text.  Its recursion is bounded by a fuel that
  \<open>json_loads\<close> sets to the length of the text; the fuel goes down by one only where a
  character has been consumed, so it never runs out (\<open>fuel_enough\<close> below).
\<close>

definition is_ws :: "char \<Rightarrow> bool" where
  "is_ws c = (c = CHR 0x20 \<or> c = CHR 0x09 \<or> c = CHR 0x0A \<or> c = CHR 0x0D)"

definition skip_ws :: "string \<Rightarrow> string" where
  "skip_ws s = dropWhile is_ws s"

definition is_digit :: "char \<Rightarrow> bool" where
  "is_digit c = (48 \<le> (of_char c :: nat) \<and> (of_char c :: nat) \<le> 57)"

definition hex_val :: "char \<Rightarrow> nat option" where
  "hex_val c = (let n = (of_char c :: nat) in
     if 48 \<le> n \<and> n \<le> 57 then Some (n - 48)
     else if 97 \<le> n \<and> n \<le> 102 then Some (n - 87)
     else if 65 \<le> n \<and> n \<le> 70 then Some (n - 55)
     else None)"

definition hex4 :: "char \<Rightarrow> char \<Rightarrow> char \<Rightarrow> char \<Rightarrow> nat option" where
  "hex4 a b c d =
     (case (hex_val a, hex_val b, hex_val c, hex_val d) of
        (Some x, Some y, Some z, Some w) \<Rightarrow> Some (((x * 16 + y) * 16 + z) * 16 + w)
      | _ \<Rightarrow> None)"

definition unescape :: "char \<Rightarrow> char option" where
  "unescape e =
     (if e = CHR 0x22 then Some (CHR 0x22)
      else if e = CHR 0x5C then Some (CHR 0x5C)
      else if e = CHR ''/'' then Some (CHR ''/'')
      else if e = CHR ''b'' then Some (CHR 0x08)
      else if e = CHR ''f'' then Some (CHR 0x0C)
      else if e = CHR ''n'' then Some (CHR 0x0A)
      else if e = CHR ''r'' then Some (CHR 0x0D)
      else if e = CHR ''t'' then Some (CHR 0x09)
      else None)"

definition cons_result :: "'a \<Rightarrow> ('a list \<times> string) option \<Rightarrow> ('a list \<times> string) option" where
  "cons_result x r = (case r of None \<Rightarrow> None | Some (xs, rest) \<Rightarrow> Some (x # xs, rest))"

fun scanstring :: "string \<Rightarrow> (string \<times> string) option" where
  "scanstring [] = None"
| "scanstring (c # cs) =
     (if c = CHR 0x22 then Some ([], cs)
      else if c = CHR 0x5C then
        (case cs of
           [] \<Rightarrow> None
         | e # cs' \<Rightarrow>
             if e = CHR ''u'' then
               (case cs' of
                  a # b # c # d # rest \<Rightarrow>
                    (case hex4 a b c d of
                       None \<Rightarrow> None
                     | Some n \<Rightarrow> if n < 256 then cons_result (char_of n) (scanstring rest) else None)
                | _ \<Rightarrow> None)
             else
               (case unescape e of
                  None \<Rightarrow> None
                | Some x \<Rightarrow> cons_result x (scanstring cs')))
      else if (of_char c :: nat) < 32 then None
      else cons_result c (scanstring cs))"

definition digits_val :: "string \<Rightarrow> nat" where
  "digits_val ds = foldl (\<lambda>n c. 10 * n + (of_char c - 48)) 0 ds"

text \<open>
  A number is \<open>-?(0|[1-9][0-9]*)(\.[0-9]+)?([eE][-+]?[0-9]+)?\<close>, matched as far as it goes; it
  is an \<open>int\<close> when it has neither fraction nor exponent.
\<close>

definition scan_fraction :: "string \<Rightarrow> string \<times> string" where
  "scan_fraction s =
     (case s of
        p # d # r \<Rightarrow>
          if p = CHR ''.'' \<and> is_digit d
          then (p # d # takeWhile is_digit r, dropWhile is_digit r) else ([], s)
      | _ \<Rightarrow> ([], s))"

definition scan_exponent :: "string \<Rightarrow> string \<times> string" where
  "scan_exponent s =
     (case s of
        [] \<Rightarrow> ([], s)
      | e # r \<Rightarrow>
          if e = CHR ''e'' \<or> e = CHR ''E'' then
            (case r of
               [] \<Rightarrow> ([], s)
             | g # r' \<Rightarrow>
                 if is_digit g then (e # g # takeWhile is_digit r', dropWhile is_digit r')
                 else if g = CHR ''+'' \<or> g = CHR ''-'' then
                   (case r' of
                      [] \<Rightarrow> ([], s)
                    | d # r'' \<Rightarrow>
                        if is_digit d
                        then (e # g # d # takeWhile is_digit r'', dropWhile is_digit r'')
                        else ([], s))
                 else ([], s))
          else ([], s))"

definition scan_number :: "string \<Rightarrow> (json \<times> string) option" where
  "scan_number s =
     (let (neg, s1) = (case s of [] \<Rightarrow> (False, s)
                        | c # r \<Rightarrow> if c = CHR ''-'' then (True, r) else (False, s))
      in case s1 of
           [] \<Rightarrow> None
         | d # r \<Rightarrow>
             if \<not> is_digit d then None
             else
               let (ip, r1) = (if d = CHR ''0'' then ([d], r)
                               else (d # takeWhile is_digit r, dropWhile is_digit r));
                   (fp, r2) = scan_fraction r1;
                   (ep, r3) = scan_exponent r2
               in if fp = [] \<and> ep = []
                  then Some (JInt (if neg then - int (digits_val ip) else int (digits_val ip)), r3)
                  else Some (JFloat ((if neg then ''-'' else []) @ ip @ fp @ ep), r3))"

definition scan_literal :: "string \<Rightarrow> (json \<times> string) option" where
  "scan_literal s =
     (if startswith s ''null'' then Some (JNull, drop 4 s)
      else if startswith s ''true'' then Some (JBool True, drop 4 s)
      else if startswith s ''false'' then Some (JBool False, drop 5 s)
      else case scan_number s of
             Some r \<Rightarrow> Some r
           | None \<Rightarrow>
               if startswith s ''NaN'' then Some (JFloat ''NaN'', drop 3 s)
               else if startswith s ''Infinity'' then Some (JFloat ''Infinity'', drop 8 s)
               else if startswith s ''-Infinity'' then Some (JFloat ''-Infinity'', drop 9 s)
               else None)"

text \<open>
  \<open>dict(pairs)\<close>: a key that comes again keeps its place and takes the later value.
\<close>

fun dict_set :: "(string \<times> json) list \<Rightarrow> string \<Rightarrow> json \<Rightarrow> (string \<times> json) list" where
  "dict_set [] k v = [(k, v)]"
| "dict_set ((k', v') # d) k v = (if k' = k then (k', v) # d else (k', v') # dict_set d k v)"

definition dict_of :: "(string \<times> json) list \<Rightarrow> (string \<times> json) list" where
  "dict_of pairs = foldl (\<lambda>d (k, v). dict_set d k v) [] pairs"

text \<open>
  \<open>parse_value\<close> is the scanner's \<open>scan_once\<close>; \<open>parse_elems\<close> is the loop of \<open>JSONArray\<close>
  from an element on, \<open>parse_members\<close> the loop of \<open>JSONObject\<close> from behind the opening
  quote of a key on.
\<close>

fun parse_value :: "nat \<Rightarrow> string \<Rightarrow> (json \<times> string) option"
  and parse_elems :: "nat \<Rightarrow> string \<Rightarrow> (json list \<times> string) option"
  and parse_members :: "nat \<Rightarrow> string \<Rightarrow> ((string \<times> json) list \<times> string) option"
where
  "parse_value 0 s = None"
| "parse_value (Suc f) [] = None"
| "parse_value (Suc f) (c # r) =
     (if c = CHR 0x22 then
        (case scanstring r of None \<Rightarrow> None | Some (str, r') \<Rightarrow> Some (JStr str, r'))
      else if c = CHR ''{'' then
        (case skip_ws r of
           [] \<Rightarrow> None
         | d # r' \<Rightarrow>
             if d = CHR ''}'' then Some (JObj [], r')
             else if d = CHR 0x22 then
               (case parse_members f r' of
                  None \<Rightarrow> None
                | Some (ms, r'') \<Rightarrow> Some (JObj (dict_of ms), r''))
             else None)
      else if c = CHR ''['' then
        (case skip_ws r of
           [] \<Rightarrow> None
         | d # r' \<Rightarrow>
             if d = CHR '']'' then Some (JList [], r')
             else
               (case parse_elems f (d # r') of
                  None \<Rightarrow> None
                | Some (vs, r'') \<Rightarrow> Some (JList vs, r''))) 
      else scan_literal (c # r))"
| "parse_elems f s =
     (case parse_value f s of
        None \<Rightarrow> None
      | Some (v, r) \<Rightarrow>
          (case skip_ws r of
             [] \<Rightarrow> None
           | d # r' \<Rightarrow>
               if d = CHR '']'' then Some ([v], r')
               else if d = CHR '','' then
                 (case f of
                    0 \<Rightarrow> None
                  | Suc f' \<Rightarrow> cons_result v (parse_elems f' (skip_ws r')))
               else None))"
| "parse_members f s =
     (case scanstring s of
        None \<Rightarrow> None
      | Some (key, r) \<Rightarrow>
          (case skip_ws r of
             [] \<Rightarrow> None
           | c # r1 \<Rightarrow>
               if c \<noteq> CHR '':'' then None
               else
                 (case parse_value f (skip_ws r1) of
                    None \<Rightarrow> None
                  | Some (v, r2) \<Rightarrow>
                      (case skip_ws r2 of
                         [] \<Rightarrow> None
                       | d # r3 \<Rightarrow>
                           if d = CHR ''}'' then Some ([(key, v)], r3)
                           else if d = CHR '','' then
                             (case skip_ws r3 of
                                [] \<Rightarrow> None
                              | q # r4 \<Rightarrow>
                                  if q = CHR 0x22 then
                                    (case f of
                                       0 \<Rightarrow> None
                                     | Suc f' \<Rightarrow> cons_result (key, v) (parse_members f' r4))
                                  else None)
                           else None))))"

text \<open>
  \<open>json.loads\<close>: white space may surround the value; anything else behind it is an error.
\<close>

definition json_loads :: "string \<Rightarrow> json option" where
  "json_loads s =
     (case parse_value (length s) (skip_ws s) of
        None \<Rightarrow> None
      | Some (v, r) \<Rightarrow> if skip_ws r = [] then Some v else None)"

section \<open>The storage file\<close>

text \<open>
  \<open>library_data.json\<close> is absent (\<open>None\<close>) or holds a text.  \<open>writes\<close> counts how often
  the file has been opened for writing.  Failures of the operating system other than a
  missing file (permissions, a full disk, bytes that are no text) are outside the model.
\<close>

record storage =
  content :: "string option"
  writes :: nat

text \<open>
  \<open>save_library\<close> opens the file in mode \<open>"w"\<close>, which truncates it, and dumps the whole
  list.
\<close>

definition save_library :: "library \<Rightarrow> storage \<Rightarrow> storage" where
  "save_library library st =
     st\<lparr>content := Some (json_dumps (library_json library)), writes := Suc (writes st)\<rparr>"

text \<open>
  \<open>load_library\<close> opens the file for reading, which raises \<open>FileNotFoundError\<close> when it is
  absent, and decodes its text, which raises \<open>JSONDecodeError\<close> when it is no JSON.  The
  \<open>except\<close> clause turns both into the empty list.
\<close>

datatype error = FileNotFoundError | JSONDecodeError

definition open_read :: "storage \<Rightarrow> error + string" where
  "open_read st = (case content st of None \<Rightarrow> Inl FileNotFoundError | Some text \<Rightarrow> Inr text)"

definition json_load :: "string \<Rightarrow> error + json" where
  "json_load text = (case json_loads text of None \<Rightarrow> Inl JSONDecodeError | Some v \<Rightarrow> Inr v)"

definition load_library :: "storage \<Rightarrow> json" where
  "load_library st =
     (case (case open_read st of Inl e \<Rightarrow> Inl e | Inr text \<Rightarrow> json_load text) of
        Inr v \<Rightarrow> v
      | Inl FileNotFoundError \<Rightarrow> JList []
      | Inl JSONDecodeError \<Rightarrow> JList [])"

section \<open>The operations\<close>

text \<open>
  Every operation takes the list object and the storage, and returns its result together
  with the list and the storage as it leaves them.
\<close>

definition add_book ::
  "library \<Rightarrow> string \<Rightarrow> string \<Rightarrow> int \<Rightarrow> string \<Rightarrow> bool \<Rightarrow> storage \<Rightarrow> unit \<times> library \<times> storage" where
  "add_book library t a y g read_status st =
     (let library' = library @ [\<lparr>title = t, author = a, year = y, genre = g, read = read_status\<rparr>]
      in ((), library', save_library library' st))"

text \<open>
  The \<open>for\<close> loop of \<open>remove_book\<close> over the books still to visit.  \<open>library.remove(book)\<close>
  deletes the first element equal to \<open>book\<close>; the function returns right after it, so the
  loop never goes on over the changed list.
\<close>

fun remove_loop :: "book list \<Rightarrow> library \<Rightarrow> string \<Rightarrow> storage \<Rightarrow> bool \<times> library \<times> storage" where
  "remove_loop [] library t st = (False, library, st)"
| "remove_loop (book # rest) library t st =
     (if lower (title book) = lower t
      then (let library' = remove1 book library in (True, library', save_library library' st))
      else remove_loop rest library t st)"

definition remove_book :: "library \<Rightarrow> string \<Rightarrow> storage \<Rightarrow> bool \<times> library \<times> storage" where
  "remove_book library t st = remove_loop library library t st"

definition search_books :: "library \<Rightarrow> string \<Rightarrow> storage \<Rightarrow> book list \<times> library \<times> storage" where
  "search_books library query st =
     (filter (\<lambda>book. str_in (lower query) (lower (title book))
                   \<or> str_in (lower query) (lower (author book))) library,
      library, st)"

text \<open>
  The percentage is computed in exact arithmetic; Python computes the same expression in
  binary floating point.
\<close>

definition calculate_statistics :: "library \<Rightarrow> storage \<Rightarrow> (int \<times> rat) \<times> library \<times> storage" where
  "calculate_statistics library st =
     (let total_books = int (length library);
          read_books = (\<Sum>book \<leftarrow> filter read library. (1 :: int));
          read_percentage = (if total_books > 0
                             then of_int read_books / of_int total_books * 100 else 0)
      in ((total_books, read_percentage), library, st))"

text \<open>
  \<open>random.choice(seq)\<close> is \<open>seq[randbelow(len(seq))]\<close>; \<open>rng n\<close> is the number the generator
  draws for \<open>randbelow(n)\<close>, uniform on \<open>0..<n\<close>.
\<close>

definition get_random_book :: "library \<Rightarrow> (nat \<Rightarrow> nat) \<Rightarrow> storage \<Rightarrow> book option \<times> library \<times> storage" where
  "get_random_book library rng st =
     (if library \<noteq> [] then Some (library ! rng (length library)) else None, library, st)"

section \<open>Example data\<close>

definition hobbit :: book where
  "hobbit = \<lparr>title = ''The Hobbit'', author = ''J.R.R. Tolkien'', year = 1937,
     genre = ''Fantasy'', read = True\<rparr>"

definition dune :: book where
  "dune = \<lparr>title = ''Dune'', author = ''Frank Herbert'', year = 1965,
     genre = ''SF'', read = False\<rparr>"

definition dune_upper :: book where
  "dune_upper = \<lparr>title = ''DUNE'', author = ''F. Herbert'', year = 1984,
     genre = ''SF'', read = True\<rparr>"

definition empty_storage :: storage where
  "empty_storage = \<lparr>content = None, writes = 0\<rparr>"

section \<open>Notions for the proofs\<close>

text \<open>
  \<open>delimited rest\<close>: what follows a value in a dumped text, nothing, a comma or a line
  feed.  \<open>starts_value s\<close>: \<open>s\<close> begins with neither white space nor a closing bracket.
  \<open>wf_json v\<close>: \<open>v\<close> has no float, and the keys of each of its dicts are distinct.
\<close>

definition delimited :: "string \<Rightarrow> bool" where
  "delimited rest = (case rest of [] \<Rightarrow> True | c # _ \<Rightarrow> c = CHR '','' \<or> c = CHR 0x0A)"

definition starts_value :: "string \<Rightarrow> bool" where
  "starts_value s = (case s of [] \<Rightarrow> False | c # _ \<Rightarrow> \<not> is_ws c \<and> c \<noteq> CHR '']'')"

fun wf_json :: "json \<Rightarrow> bool" where
  "wf_json (JFloat lit) = False"
| "wf_json (JList xs) = (\<forall>x \<in> set xs. wf_json x)"
| "wf_json (JObj ms) = (distinct (map fst ms) \<and> (\<forall>m \<in> set ms. wf_json (snd m)))"
| "wf_json v = True"

declare show_nat.simps [simp del]

declare parse_elems.simps [simp del] parse_members.simps [simp del]

section \<open>Substring search\<close>

lemma startswith_iff: "startswith s q \<longleftrightarrow> (\<exists>r. s = q @ r)"
  by (induction s q rule: startswith.induct) auto

lemma str_in_iff: "str_in q s \<longleftrightarrow> (\<exists>p r. s = p @ q @ r)"
proof (induction s)
  case Nil
  then show ?case by auto
next
  case (Cons c s)
  show ?case
  proof
    assume "str_in q (c # s)"
    then consider "startswith (c # s) q" | "str_in q s" by auto
    then show "\<exists>p r. c # s = p @ q @ r"
    proof cases
      case 1
      then obtain r where "c # s = q @ r" by (auto simp: startswith_iff)
      then have "c # s = [] @ q @ r" by simp
      then show ?thesis by blast
    next
      case 2
      then obtain p r where "s = p @ q @ r" using Cons.IH by auto
      then have "c # s = (c # p) @ q @ r" by simp
      then show ?thesis by blast
    qed
  next
    assume "\<exists>p r. c # s = p @ q @ r"
    then obtain p r where pr: "c # s = p @ q @ r" by blast
    show "str_in q (c # s)"
    proof (cases p)
      case Nil
      with pr have "startswith (c # s) q" unfolding startswith_iff by auto
      then show ?thesis by simp
    next
      case (Cons d p')
      with pr have "s = p' @ q @ r" by simp
      then show ?thesis using Cons.IH by auto
    qed
  qed
qed

lemma str_in_empty: "str_in [] s"
  by (induction s) auto

section \<open>Lists\<close>

lemma count_idx: "card {k. k < length lib \<and> lib ! k = x} = count_list lib x"
  by (simp add: count_list_eq_length_filter length_filter_conv_card) (metis (mono_tags) Collect_cong)


lemma find_first_index:
  "find P xs = Some b \<Longrightarrow>
     \<exists>i < length xs. xs ! i = b \<and> P b \<and> (\<forall>j < i. \<not> P (xs ! j))"
proof (induction xs)
  case Nil
  then show ?case by simp
next
  case (Cons x xs)
  show ?case
  proof (cases "P x")
    case True
    with Cons.prems have "x = b" by simp
    with True show ?thesis by (intro exI [of _ 0]) simp
  next
    case False
    with Cons.prems have "find P xs = Some b" by simp
    then obtain i where i: "i < length xs" "xs ! i = b" "P b" "\<forall>j < i. \<not> P (xs ! j)"
      using Cons.IH by blast
    have "\<forall>j < Suc i. \<not> P ((x # xs) ! j)"
      using False i(4) by (auto simp: less_Suc_eq_0_disj)
    with i show ?thesis by (intro exI [of _ "Suc i"]) simp
  qed
qed

lemma remove1_first_index:
  "i < length xs \<Longrightarrow> \<forall>j < i. xs ! j \<noteq> xs ! i \<Longrightarrow>
     remove1 (xs ! i) xs = take i xs @ drop (Suc i) xs"
proof (induction xs arbitrary: i)
  case Nil
  then show ?case by simp
next
  case (Cons x xs)
  show ?case
  proof (cases i)
    case 0
    then show ?thesis by simp
  next
    case (Suc k)
    from Cons.prems(2) Suc have "x \<noteq> xs ! k" by (metis nth_Cons_0 nth_Cons_Suc zero_less_Suc)
    moreover have "\<forall>j < k. xs ! j \<noteq> xs ! k"
      using Cons.prems(2) Suc by (metis Suc_less_eq nth_Cons_Suc)
    moreover have "k < length xs" using Cons.prems(1) Suc by simp
    ultimately show ?thesis using Cons.IH [of k] Suc by simp
  qed
qed

section \<open>The loop of \<open>remove_book\<close>\<close>

lemma remove_loop_find:
  "remove_loop xs lib t st =
     (case find (\<lambda>b. lower (title b) = lower t) xs of
        None \<Rightarrow> (False, lib, st)
      | Some b \<Rightarrow> (True, remove1 b lib, save_library (remove1 b lib) st))"
  by (induction xs) (auto simp: Let_def)

section \<open>Decimal numerals\<close>

lemma of_char_digit_char: "d < 10 \<Longrightarrow> (of_char (digit_char d) :: nat) = 48 + d"
  by (simp add: digit_char_def)

lemma is_digit_digit_char: "d < 10 \<Longrightarrow> is_digit (digit_char d)"
  by (simp add: is_digit_def of_char_digit_char)

lemma digit_char_0: "digit_char 0 = CHR ''0''"
  by code_simp

lemma digit_char_eq_0: "d < 10 \<Longrightarrow> digit_char d = CHR ''0'' \<longleftrightarrow> d = 0"
proof
  assume d: "d < 10" and "digit_char d = CHR ''0''"
  then have "(of_char (digit_char d) :: nat) = of_char CHR ''0''" by simp
  with d show "d = 0" by (simp add: of_char_digit_char)
qed (simp add: digit_char_0)

lemma show_nat_digits: "list_all is_digit (show_nat n)"
proof (induction n rule: show_nat.induct)
  case (1 n)
  show ?case
  proof (cases "n < 10")
    case True
    then show ?thesis by (simp add: show_nat.simps [of n] is_digit_digit_char)
  next
    case False
    with 1 show ?thesis by (simp add: show_nat.simps [of n] is_digit_digit_char)
  qed
qed

lemma digits_val_snoc: "digits_val (ds @ [c]) = 10 * digits_val ds + (of_char c - 48)"
  by (simp add: digits_val_def)

lemma digits_val_show_nat: "digits_val (show_nat n) = n"
proof (induction n rule: show_nat.induct)
  case (1 n)
  show ?case
  proof (cases "n < 10")
    case True
    then show ?thesis
      by (simp add: show_nat.simps [of n] digits_val_def of_char_digit_char)
  next
    case False
    with 1 show ?thesis
      by (simp add: show_nat.simps [of n] digits_val_snoc of_char_digit_char)
  qed
qed

lemma show_nat_head:
  "\<exists>d ds. show_nat n = d # ds \<and> is_digit d \<and> (d = CHR ''0'' \<longrightarrow> n = 0 \<and> ds = [])"
proof (induction n rule: show_nat.induct)
  case (1 n)
  show ?case
  proof (cases "n < 10")
    case True
    then show ?thesis
      by (simp add: show_nat.simps [of n] is_digit_digit_char digit_char_eq_0)
  next
    case False
    then have "n div 10 \<noteq> 0" by simp
    with 1 False obtain d ds where
      "show_nat (n div 10) = d # ds" "is_digit d" "d \<noteq> CHR ''0''" by auto
    with False show ?thesis by (simp add: show_nat.simps [of n])
  qed
qed

lemma delimited_cases:
  assumes "delimited rest"
  obtains "rest = []" | r where "rest = CHR '','' # r" | r where "rest = CHR 0x0A # r"
  using assms by (auto simp: delimited_def split: list.splits)

lemma not_digit_delims: "\<not> is_digit CHR '',''" "\<not> is_digit CHR 0x0A"
  by (simp_all add: is_digit_def)

lemma takeWhile_digits: "list_all is_digit ds \<Longrightarrow> delimited rest \<Longrightarrow>
    takeWhile is_digit (ds @ rest) = ds \<and> dropWhile is_digit (ds @ rest) = rest"
  by (induction ds) (auto elim!: delimited_cases simp: not_digit_delims)

lemma scan_fraction_delimited: "delimited rest \<Longrightarrow> scan_fraction rest = ([], rest)"
  by (auto elim!: delimited_cases simp: scan_fraction_def split: list.splits)

lemma scan_exponent_delimited: "delimited rest \<Longrightarrow> scan_exponent rest = ([], rest)"
  by (auto elim!: delimited_cases simp: scan_exponent_def)

lemma is_digit_not_minus: "is_digit d \<Longrightarrow> d \<noteq> CHR ''-''"
  by (auto simp: is_digit_def)

lemma scan_number_digits:
  assumes "delimited rest"
  shows "scan_number (show_nat n @ rest) = Some (JInt (int n), rest)"
proof -
  obtain d ds where s: "show_nat n = d # ds" and d: "is_digit d"
    and z: "d = CHR ''0'' \<longrightarrow> n = 0 \<and> ds = []"
    using show_nat_head [of n] by blast
  have "list_all is_digit (d # ds)" using show_nat_digits [of n] s by simp
  then have ds: "list_all is_digit ds" by simp
  have v: "digits_val (d # ds) = n" using digits_val_show_nat [of n] s by simp
  note tw = takeWhile_digits [OF ds assms]
  show ?thesis
  proof (cases "d = CHR ''0''")
    case True
    with z v s d assms show ?thesis
      by (simp add: scan_number_def scan_fraction_delimited scan_exponent_delimited)
  next
    case False
    with v s d assms tw is_digit_not_minus [OF d] show ?thesis
      by (simp add: scan_number_def scan_fraction_delimited scan_exponent_delimited)
  qed
qed

lemma scan_number_neg_digits:
  assumes "delimited rest"
  shows "scan_number (CHR ''-'' # show_nat n @ rest) = Some (JInt (- int n), rest)"
proof -
  obtain d ds where s: "show_nat n = d # ds" and d: "is_digit d"
    and z: "d = CHR ''0'' \<longrightarrow> n = 0 \<and> ds = []"
    using show_nat_head [of n] by blast
  have "list_all is_digit (d # ds)" using show_nat_digits [of n] s by simp
  then have ds: "list_all is_digit ds" by simp
  have v: "digits_val (d # ds) = n" using digits_val_show_nat [of n] s by simp
  note tw = takeWhile_digits [OF ds assms]
  show ?thesis
  proof (cases "d = CHR ''0''")
    case True
    with z v s d assms show ?thesis
      by (simp add: scan_number_def scan_fraction_delimited scan_exponent_delimited)
  next
    case False
    with v s d assms tw show ?thesis
      by (simp add: scan_number_def scan_fraction_delimited scan_exponent_delimited)
  qed
qed

lemma scan_number_show_int:
  "delimited rest \<Longrightarrow> scan_number (show_int i @ rest) = Some (JInt i, rest)"
  by (simp add: show_int_def scan_number_digits scan_number_neg_digits)

section \<open>String literals and white space\<close>

lemma hex_val_hex_char: "d < 16 \<Longrightarrow> hex_val (hex_char d) = Some d"
  by (auto simp: hex_val_def hex_char_def Let_def)

lemma hex_val_0: "hex_val CHR ''0'' = Some 0"
  by (simp add: hex_val_def)

lemma of_char_less_256: "(of_char (c :: char) :: nat) < 256"
  by (rule nat_of_char_less_256)

lemma hex4_of_char:
  "hex4 CHR ''0'' CHR ''0'' (hex_char (of_char c div 16)) (hex_char (of_char c mod 16))
     = Some (of_char c)"
proof -
  have "(of_char c :: nat) < 16 * 16" using of_char_less_256 [of c] by simp
  then have "(of_char c :: nat) div 16 < 16" by (simp only: less_mult_imp_div_less)
  then show ?thesis by (simp add: hex4_def hex_val_0 hex_val_hex_char)
qed

lemma scanstring_escape_char:
  "scanstring (escape_char c @ t) = cons_result c (scanstring t)"
proof -
  consider "c = CHR 0x22" | "c = CHR 0x5C" | "c = CHR 0x0A" | "c = CHR 0x0D" | "c = CHR 0x09"
    | "c = CHR 0x0C" | "c = CHR 0x08"
    | "c \<notin> {CHR 0x22, CHR 0x5C, CHR 0x0A, CHR 0x0D, CHR 0x09, CHR 0x0C, CHR 0x08}"
      "32 \<le> (of_char c :: nat) \<and> (of_char c :: nat) \<le> 126"
    | "c \<notin> {CHR 0x22, CHR 0x5C, CHR 0x0A, CHR 0x0D, CHR 0x09, CHR 0x0C, CHR 0x08}"
      "\<not> (32 \<le> (of_char c :: nat) \<and> (of_char c :: nat) \<le> 126)"
    by blast
  then show ?thesis
  proof cases
    case 8
    then show ?thesis by (simp add: escape_char_def)
  next
    case 9
    then show ?thesis
      by (simp add: escape_char_def hex4_of_char of_char_less_256)
  qed (simp_all add: escape_char_def unescape_def)
qed

lemma scanstring_escaped:
  "scanstring (concat (map escape_char s) @ CHR 0x22 # rest) = Some (s, rest)"
  by (induction s) (simp_all add: scanstring_escape_char cons_result_def)

lemma is_ws_space: "is_ws CHR 0x20" "is_ws CHR 0x0A"
  by (simp_all add: is_ws_def)

lemma skip_ws_newline_indent:
  "skip_ws (newline_indent k @ s) = skip_ws s"
  by (simp add: skip_ws_def newline_indent_def is_ws_space dropWhile_append3 dropWhile_append)

lemma skip_ws_nonws: "\<not> is_ws c \<Longrightarrow> skip_ws (c # s) = c # s"
  by (simp add: skip_ws_def)

section \<open>Scalars\<close>

lemma is_digit_plain:
  "is_digit d \<Longrightarrow> \<not> is_ws d \<and> d \<noteq> CHR '']'' \<and> d \<noteq> CHR 0x22 \<and> d \<noteq> CHR ''{'' \<and> d \<noteq> CHR ''[''
     \<and> d \<noteq> CHR ''n'' \<and> d \<noteq> CHR ''t'' \<and> d \<noteq> CHR ''f''"
  by (auto simp: is_digit_def is_ws_def)

lemma show_int_head:
  "\<exists>c cs. show_int i = c # cs \<and> (c = CHR ''-'' \<or> is_digit c)"
  using show_nat_head [of "nat i"] by (auto simp: show_int_def)

lemma pv_null: "parse_value (Suc f) (''null'' @ rest) = Some (JNull, rest)"
  by (simp add: scan_literal_def)

lemma pv_true: "parse_value (Suc f) (''true'' @ rest) = Some (JBool True, rest)"
  by (simp add: scan_literal_def)

lemma pv_false: "parse_value (Suc f) (''false'' @ rest) = Some (JBool False, rest)"
  by (simp add: scan_literal_def)

lemma pv_int:
  assumes "delimited rest"
  shows "parse_value (Suc f) (show_int i @ rest) = Some (JInt i, rest)"
proof -
  obtain c cs where s: "show_int i = c # cs" and c: "c = CHR ''-'' \<or> is_digit c"
    using show_int_head by blast
  have n: "c \<noteq> CHR 0x22 \<and> c \<noteq> CHR ''{'' \<and> c \<noteq> CHR ''['' \<and> c \<noteq> CHR ''n''
      \<and> c \<noteq> CHR ''t'' \<and> c \<noteq> CHR ''f''"
    using c is_digit_plain [of c] by auto
  have sn: "scan_number (c # cs @ rest) = Some (JInt i, rest)"
    using scan_number_show_int [OF assms, of i] s by simp
  have "parse_value (Suc f) (c # cs @ rest) = Some (JInt i, rest)"
    using n by (simp add: scan_literal_def sn)
  then show ?thesis using s by simp
qed

lemma pv_str: "parse_value (Suc f) (encode_string s @ rest) = Some (JStr s, rest)"
  by (simp add: encode_string_def scanstring_escaped)

lemma starts_value_encode: "wf_json v \<Longrightarrow> starts_value (encode l v @ t)"
proof (cases v)
  case (JInt i)
  obtain c cs where "show_int i = c # cs" "c = CHR ''-'' \<or> is_digit c"
    using show_int_head by blast
  with JInt show ?thesis using is_digit_plain [of c]
    by (auto simp: starts_value_def is_ws_def)
next
  case (JList xs)
  then show ?thesis by (cases xs) (simp_all add: starts_value_def is_ws_def)
next
  case (JObj ms)
  then show ?thesis by (cases ms) (simp_all add: starts_value_def is_ws_def)
qed (auto simp: starts_value_def is_ws_def encode_string_def)

lemma starts_value_skip: "starts_value s \<Longrightarrow> skip_ws s = s"
  by (cases s) (simp_all add: starts_value_def skip_ws_def)

lemma dict_set_fresh: "k \<notin> fst ` set d \<Longrightarrow> dict_set d k v = d @ [(k, v)]"
  by (induction d) auto

lemma dict_of_distinct_aux:
  "distinct (map fst (d @ ms)) \<Longrightarrow> foldl (\<lambda>d (k, v). dict_set d k v) d ms = d @ ms"
proof (induction ms arbitrary: d)
  case Nil
  then show ?case by simp
next
  case (Cons m ms)
  obtain k v where m: "m = (k, v)" by (cases m)
  from Cons.prems m have "k \<notin> fst ` set d" by auto
  then have "dict_set d k v = d @ [(k, v)]" by (rule dict_set_fresh)
  moreover have "distinct (map fst ((d @ [(k, v)]) @ ms))" using Cons.prems m by simp
  ultimately show ?case using Cons.IH [of "d @ [(k, v)]"] m by simp
qed

lemma dict_of_distinct: "distinct (map fst ms) \<Longrightarrow> dict_of ms = ms"
  using dict_of_distinct_aux [of "[]" ms] by (simp add: dict_of_def)

section \<open>Arrays and objects\<close>

lemma not_ws_punct:
  "\<not> is_ws CHR '',''" "\<not> is_ws CHR '']''" "\<not> is_ws CHR ''}''" "\<not> is_ws CHR '':''"
  "\<not> is_ws CHR 0x22"
  by (simp_all add: is_ws_def)

lemma skip_ws_space: "skip_ws (CHR 0x20 # s) = skip_ws s"
  by (simp add: skip_ws_def is_ws_def)

lemma starts_value_cons: "starts_value s \<Longrightarrow> \<exists>d r. s = d # r \<and> d \<noteq> CHR '']'' \<and> \<not> is_ws d"
  by (cases s) (auto simp: starts_value_def)

lemma pv_list_step:
  assumes sv: "starts_value t"
    and pe: "parse_elems f t = Some (xs, rest)"
  shows "parse_value (Suc f) (CHR ''['' # newline_indent j @ t) = Some (JList xs, rest)"
proof -
  obtain d r where t: "t = d # r" "d \<noteq> CHR '']''" "\<not> is_ws d"
    using starts_value_cons [OF sv] by blast
  have "skip_ws (newline_indent j @ t) = d # r"
    using t by (simp add: skip_ws_newline_indent skip_ws_nonws)
  then show ?thesis using t pe by simp
qed

lemma pe_last_step:
  assumes "parse_value f (e @ newline_indent k @ CHR '']'' # rest)
             = Some (x, newline_indent k @ CHR '']'' # rest)"
  shows "parse_elems f (e @ newline_indent k @ CHR '']'' # rest) = Some ([x], rest)"
  using assms
  by (simp add: parse_elems.simps [of f] skip_ws_newline_indent skip_ws_nonws not_ws_punct)

lemma pe_cons_step:
  assumes pv: "parse_value (Suc f) (e @ CHR '','' # newline_indent j @ t)
             = Some (x, CHR '','' # newline_indent j @ t)"
    and sv: "starts_value t"
    and pe: "parse_elems f t = Some (xs, rest)"
  shows "parse_elems (Suc f) (e @ CHR '','' # newline_indent j @ t) = Some (x # xs, rest)"
proof -
  have "skip_ws (newline_indent j @ t) = t"
    by (simp add: skip_ws_newline_indent starts_value_skip [OF sv])
  then show ?thesis using pv pe
    by (simp add: parse_elems.simps [of "Suc f"] skip_ws_nonws not_ws_punct cons_result_def)
qed

lemma pv_obj_step:
  assumes pm: "parse_members f t = Some (ms, rest)"
    and d: "distinct (map fst ms)"
  shows "parse_value (Suc f) (CHR ''{'' # newline_indent j @ CHR 0x22 # t) = Some (JObj ms, rest)"
proof -
  have "skip_ws (newline_indent j @ CHR 0x22 # t) = CHR 0x22 # t"
    by (simp add: skip_ws_newline_indent skip_ws_nonws not_ws_punct)
  then show ?thesis using pm by (simp add: dict_of_distinct [OF d])
qed

lemma pm_last_step:
  assumes sv: "starts_value (e @ newline_indent j @ CHR ''}'' # rest)"
    and pv: "parse_value f (e @ newline_indent j @ CHR ''}'' # rest)
             = Some (v, newline_indent j @ CHR ''}'' # rest)"
  shows "parse_members f (concat (map escape_char k) @ CHR 0x22 # CHR '':'' # CHR 0x20 # e
            @ newline_indent j @ CHR ''}'' # rest) = Some ([(k, v)], rest)"
proof -
  have "skip_ws (CHR 0x20 # e @ newline_indent j @ CHR ''}'' # rest)
          = e @ newline_indent j @ CHR ''}'' # rest"
    by (simp add: skip_ws_space starts_value_skip [OF sv])
  then show ?thesis using pv
    by (simp add: parse_members.simps [of f] scanstring_escaped skip_ws_nonws not_ws_punct
        skip_ws_newline_indent)
qed

lemma pm_cons_step:
  assumes sv: "starts_value (e @ CHR '','' # newline_indent j @ CHR 0x22 # t)"
    and pv: "parse_value (Suc f) (e @ CHR '','' # newline_indent j @ CHR 0x22 # t)
             = Some (v, CHR '','' # newline_indent j @ CHR 0x22 # t)"
    and pm: "parse_members f t = Some (ms, rest)"
  shows "parse_members (Suc f) (concat (map escape_char k) @ CHR 0x22 # CHR '':'' # CHR 0x20 # e
            @ CHR '','' # newline_indent j @ CHR 0x22 # t) = Some ((k, v) # ms, rest)"
proof -
  have "skip_ws (CHR 0x20 # e @ CHR '','' # newline_indent j @ CHR 0x22 # t)
          = e @ CHR '','' # newline_indent j @ CHR 0x22 # t"
    by (simp add: skip_ws_space starts_value_skip [OF sv])
  then show ?thesis using pv pm
    by (simp add: parse_members.simps [of "Suc f"] scanstring_escaped skip_ws_nonws not_ws_punct
        skip_ws_newline_indent cons_result_def)
qed

lemma delimited_simps:
  "delimited (CHR '','' # s)" "delimited (newline_indent k @ s)" "delimited []"
  by (simp_all add: delimited_def newline_indent_def)

lemma starts_value_items:
  "xs \<noteq> [] \<Longrightarrow> \<forall>x \<in> set xs. wf_json x \<Longrightarrow> starts_value (encode_items l xs @ t)"
proof (cases xs)
  case Nil
  then show "xs \<noteq> [] \<Longrightarrow> ?thesis" by simp
next
  case (Cons x ys)
  assume w: "\<forall>x \<in> set xs. wf_json x"
  show ?thesis
  proof (cases ys)
    case Nil
    with Cons w show ?thesis by (simp add: starts_value_encode)
  next
    case (Cons y zs)
    with \<open>xs = x # ys\<close> w show ?thesis
      using starts_value_encode [of x l] by simp
  qed
qed

lemma members_head:
  "ms \<noteq> [] \<Longrightarrow> encode_members l ms = CHR 0x22 # tl (encode_members l ms)"
proof (cases ms)
  case Nil
  then show "ms \<noteq> [] \<Longrightarrow> ?thesis" by simp
next
  case (Cons m ys)
  obtain k v where m: "m = (k, v)" by (cases m)
  show ?thesis using Cons m by (cases ys) (simp_all add: encode_string_def)
qed

lemma roundtrip_mutual:
  "wf_json v \<Longrightarrow> length (encode l v) \<le> f \<Longrightarrow> delimited rest
     \<Longrightarrow> parse_value f (encode l v @ rest) = Some (v, rest)"
  "xs \<noteq> [] \<Longrightarrow> \<forall>x \<in> set xs. wf_json x \<Longrightarrow> length (encode_items l xs) \<le> f
     \<Longrightarrow> parse_elems f (encode_items l xs @ newline_indent k @ CHR '']'' # rest) = Some (xs, rest)"
  "ms \<noteq> [] \<Longrightarrow> \<forall>m \<in> set ms. wf_json (snd m) \<Longrightarrow> length (encode_members l ms) \<le> f
     \<Longrightarrow> parse_members f (tl (encode_members l ms) @ newline_indent k @ CHR ''}'' # rest)
           = Some (ms, rest)"
proof (induction l v and l xs and l ms arbitrary: f rest and f k rest and f k rest
    rule: encode_encode_items_encode_members.induct)
  case (1 level)
  then obtain f' where "f = Suc f'" by (cases f) auto
  then show ?case using pv_null [of f' rest] by simp
next
  case (2 level b)
  then obtain f' where "f = Suc f'" by (cases f) (auto split: if_splits)
  then show ?case using pv_true [of f' rest] pv_false [of f' rest] by simp
next
  case (3 level i)
  obtain c cs where "show_int i = c # cs" using show_int_head by blast
  with 3 obtain f' where "f = Suc f'" by (cases f) auto
  then show ?case using pv_int [OF "3.prems"(3), of f' i] by simp
next
  case (4 level lit)
  then show ?case by simp
next
  case (5 level s)
  then obtain f' where "f = Suc f'" by (cases f) (auto simp: encode_string_def)
  then show ?case using pv_str [of f' s rest] by simp
next
  case (6 level)
  then obtain f' where "f = Suc f'" by (cases f) auto
  then show ?case by (simp add: skip_ws_nonws not_ws_punct)
next
  case (7 level x xs)
  let ?items = "encode_items (Suc level) (x # xs)"
  let ?t = "?items @ newline_indent level @ CHR '']'' # rest"
  from "7.prems" obtain f' where f: "f = Suc f'" "length ?items \<le> f'" by (cases f) auto
  have w: "\<forall>y \<in> set (x # xs). wf_json y" using "7.prems"(1) by simp
  have pe: "parse_elems f' ?t = Some (x # xs, rest)"
    using "7.IH" [OF _ w f(2)] by simp
  have sv: "starts_value ?t" using starts_value_items [OF _ w] by simp
  show ?case using pv_list_step [OF sv pe, of "Suc level"] f by simp
next
  case (8 level)
  then obtain f' where "f = Suc f'" by (cases f) auto
  then show ?case by (simp add: skip_ws_nonws not_ws_punct)
next
  case (9 level m ms)
  let ?mem = "encode_members (Suc level) (m # ms)"
  let ?t = "tl ?mem @ newline_indent level @ CHR ''}'' # rest"
  from "9.prems" obtain f' where f: "f = Suc f'" "length ?mem \<le> f'" by (cases f) auto
  have w: "\<forall>y \<in> set (m # ms). wf_json (snd y)" using "9.prems"(1) by simp
  have d: "distinct (map fst (m # ms))" using "9.prems"(1) by simp
  have pm: "parse_members f' ?t = Some (m # ms, rest)"
    using "9.IH" [OF _ w f(2)] by simp
  have h: "?mem = CHR 0x22 # tl ?mem" by (rule members_head) simp
  have e: "encode level (JObj (m # ms)) @ rest
          = CHR ''{'' # newline_indent (Suc level) @ CHR 0x22 # ?t"
    using h by simp
  show ?case unfolding e f(1) by (rule pv_obj_step [OF pm d])
next
  case (10 level)
  then show ?case by simp
next
  case (11 level x)
  have "parse_value f (encode level x @ newline_indent k @ CHR '']'' # rest)
          = Some (x, newline_indent k @ CHR '']'' # rest)"
    using "11.IH" [of f "newline_indent k @ CHR '']'' # rest"] "11.prems"
    by (simp add: delimited_simps)
  then show ?case using pe_last_step by simp
next
  case (12 level x y xs)
  let ?t = "encode_items level (y # xs) @ newline_indent k @ CHR '']'' # rest"
  from "12.prems" obtain f' where f: "f = Suc f'" "length (encode level x) \<le> f"
      "length (encode_items level (y # xs)) \<le> f'"
    by (cases f) auto
  have w: "\<forall>z \<in> set (y # xs). wf_json z" using "12.prems"(2) by simp
  have pv: "parse_value f (encode level x @ CHR '','' # newline_indent level @ ?t)
          = Some (x, CHR '','' # newline_indent level @ ?t)"
    using "12.IH"(1) [OF _ f(2)] "12.prems"(2) by (simp add: delimited_simps)
  have pe: "parse_elems f' ?t = Some (y # xs, rest)"
    using "12.IH"(2) [OF _ w f(3)] by simp
  have sv: "starts_value ?t" using starts_value_items [OF _ w] by simp
  show ?case using pe_cons_step [OF pv [unfolded f(1)] sv pe] f(1) by simp
next
  case (13 level)
  then show ?case by simp
next
  case (14 level key v)
  let ?T = "newline_indent k @ CHR ''}'' # rest"
  from "14.prems" have lf: "length (encode level v) \<le> f" by simp
  have wv: "wf_json v" using "14.prems"(2) by simp
  have pv: "parse_value f (encode level v @ ?T) = Some (v, ?T)"
    using "14.IH" [OF wv lf] by (simp add: delimited_simps)
  have sv: "starts_value (encode level v @ ?T)" by (rule starts_value_encode [OF wv])
  show ?case using pm_last_step [OF sv pv, of key] by (simp add: encode_string_def)
next
  case (15 level key v m ms)
  let ?mem = "encode_members level (m # ms)"
  let ?t = "tl ?mem @ newline_indent k @ CHR ''}'' # rest"
  from "15.prems" obtain f' where f: "f = Suc f'" "length (encode level v) \<le> f"
      "length ?mem \<le> f'"
    by (cases f) auto
  have wv: "wf_json v" using "15.prems"(2) by simp
  have w: "\<forall>y \<in> set (m # ms). wf_json (snd y)" using "15.prems"(2) by simp
  have h: "?mem = CHR 0x22 # tl ?mem" by (rule members_head) simp
  let ?T = "CHR '','' # newline_indent level @ CHR 0x22 # ?t"
  have pv: "parse_value f (encode level v @ ?T) = Some (v, ?T)"
    using "15.IH"(1) [OF wv f(2)] by (simp add: delimited_simps)
  have sv: "starts_value (encode level v @ ?T)" by (rule starts_value_encode [OF wv])
  have pm: "parse_members f' ?t = Some (m # ms, rest)"
    using "15.IH"(2) [OF _ w f(3)] by simp
  have e: "tl (encode_members level ((key, v) # m # ms)) @ newline_indent k @ CHR ''}'' # rest
      = concat (map escape_char key) @ CHR 0x22 # CHR '':'' # CHR 0x20 # encode level v @ ?T"
    using h by (simp add: encode_string_def)
  show ?case unfolding e f(1) by (rule pm_cons_step [OF sv pv [unfolded f(1)] pm])
qed

section \<open>Load after dump\<close>

lemma json_loads_dumps: "wf_json v \<Longrightarrow> json_loads (json_dumps v) = Some v"
proof -
  assume w: "wf_json v"
  have "starts_value (encode 0 v @ [])" by (rule starts_value_encode [OF w])
  then have s: "skip_ws (encode 0 v) = encode 0 v" using starts_value_skip by fastforce
  have "parse_value (length (encode 0 v)) (encode 0 v @ []) = Some (v, [])"
    by (rule roundtrip_mutual(1) [OF w]) (simp_all add: delimited_simps)
  moreover have "skip_ws [] = []" by (simp add: skip_ws_def)
  ultimately show ?thesis by (simp add: json_loads_def json_dumps_def s)
qed

lemma wf_library_json: "wf_json (library_json lib)"
  by (simp add: library_json_def book_json_def)

lemma load_after_save: "load_library (save_library lib st) = library_json lib"
  by (simp add: load_library_def open_read_def json_load_def save_library_def
      json_loads_dumps [OF wf_library_json])

lemma inj_book_json: "inj book_json"
  by (rule injI) (simp add: book_json_def)

section \<open>The fuel of the decoder\<close>

text \<open>
  Every scanner returns a rest shorter than its input, so a fuel of the length of the
  text never runs out: with more fuel the decoder returns the same.
\<close>

lemma skip_ws_length: "length (skip_ws s) \<le> length s"
  by (simp add: skip_ws_def length_dropWhile_le)

lemma cons_result_Some:
  "cons_result x r = Some (ys, rest) \<longleftrightarrow> (\<exists>xs. r = Some (xs, rest) \<and> ys = x # xs)"
  by (auto simp: cons_result_def split: option.splits)

lemma scanstring_shorter: "scanstring s = Some (x, r) \<Longrightarrow> length r < length s"
proof (induction s arbitrary: x rule: length_induct)
  case (1 s)
  have IH: "scanstring t = Some (y, r) \<Longrightarrow> length t < length s \<Longrightarrow> length r < length s" for t y
    using "1.IH" by fastforce
  show ?case
  proof (cases s)
    case Nil
    with "1.prems" show ?thesis by simp
  next
    case (Cons c cs)
    show ?thesis
    proof (cases "c = CHR 0x22")
      case True
      with "1.prems" Cons show ?thesis by simp
    next
      case nq: False
      show ?thesis
      proof (cases "c = CHR 0x5C")
        case False
        with nq "1.prems" Cons obtain xs where "scanstring cs = Some (xs, r)"
          by (auto simp: cons_result_Some split: if_splits)
        then show ?thesis using IH [of cs xs] Cons by simp
      next
        case bs: True
        show ?thesis
        proof (cases cs)
          case Nil
          with "1.prems" nq bs Cons show ?thesis by simp
        next
          case cs: (Cons e cs')
          show ?thesis
          proof (cases "e = CHR ''u''")
            case False
            with "1.prems" nq bs Cons cs obtain xs where "scanstring cs' = Some (xs, r)"
              by (auto simp: cons_result_Some split: option.splits)
            then show ?thesis using IH [of cs' xs] Cons cs by simp
          next
            case u: True
            with "1.prems" nq bs Cons cs obtain a b c' d rest xs where
              cs': "cs' = a # b # c' # d # rest" and sc: "scanstring rest = Some (xs, r)"
              by (auto simp: cons_result_Some split: list.splits option.splits if_splits)
            then show ?thesis using IH [of rest xs] Cons cs by simp
          qed
        qed
      qed
    qed
  qed
qed

lemma dropWhile_le: "length (dropWhile P s) \<le> length s"
  by (rule length_dropWhile_le)

lemma scan_fraction_le: "scan_fraction s = (fp, r) \<Longrightarrow> length r \<le> length s"
  using dropWhile_le [of is_digit]
  by (auto simp: scan_fraction_def le_Suc_eq split: list.splits if_splits)

lemma scan_exponent_le: "scan_exponent s = (ep, r) \<Longrightarrow> length r \<le> length s"
  using dropWhile_le [of is_digit]
  by (auto simp: scan_exponent_def le_Suc_eq split: list.splits if_splits)

lemma scan_number_shorter: "scan_number s = Some (v, r) \<Longrightarrow> length r < length s"
proof -
  assume a: "scan_number s = Some (v, r)"
  have tail: "length r3 \<le> length r1"
    if "scan_fraction r1 = (fp, r2)" "scan_exponent r2 = (ep, r3)" for r1 r2 r3 fp ep
    using scan_fraction_le [OF that(1)] scan_exponent_le [OF that(2)] by simp
  have core: "length r < length s1"
    if "s1 = d # t" "is_digit d"
      "(ip, r1) = (if d = CHR ''0'' then ([d], t) else (d # takeWhile is_digit t, dropWhile is_digit t))"
      "scan_fraction r1 = (fp, r2)" "scan_exponent r2 = (ep, r)" for s1 d t ip r1 fp r2 ep
  proof -
    have "length r1 \<le> length t" using that(3) dropWhile_le [of is_digit t]
      by (auto split: if_splits)
    with tail [OF that(4,5)] that(1) show ?thesis by simp
  qed
  obtain neg s1 where ns: "(neg, s1) = (case s of [] \<Rightarrow> (False, s)
      | c # r \<Rightarrow> if c = CHR ''-'' then (True, r) else (False, s))"
    by (metis surj_pair)
  then have l1: "length s1 \<le> length s" by (auto split: list.splits if_splits)
  from a ns [symmetric] obtain d t where s1: "s1 = d # t" and d: "is_digit d"
    by (auto simp: scan_number_def Let_def split: list.splits if_splits prod.splits)
  obtain ip r1 where ip: "(ip, r1) = (if d = CHR ''0'' then ([d], t)
      else (d # takeWhile is_digit t, dropWhile is_digit t))"
    by (metis surj_pair)
  obtain fp r2 where fp: "scan_fraction r1 = (fp, r2)" by (metis surj_pair)
  obtain ep r3 where ep: "scan_exponent r2 = (ep, r3)" by (metis surj_pair)
  from a ns [symmetric] s1 d ip [symmetric] fp ep have "r3 = r"
    by (auto simp: scan_number_def Let_def split: if_splits)
  with core [OF s1 d ip fp] ep l1 show ?thesis by simp
qed

lemma scan_literal_shorter: "scan_literal s = Some (v, r) \<Longrightarrow> length r < length s"
proof -
  assume a: "scan_literal s = Some (v, r)"
  have sw: "startswith s q \<Longrightarrow> q \<noteq> [] \<Longrightarrow> length (drop (length q) s) < length s" for q
    by (auto simp: startswith_iff)
  show ?thesis
  proof (cases "scan_number s")
    case (Some p)
    with a scan_number_shorter [of s "fst p" "snd p"] sw [of "''null''"] sw [of "''true''"]
      sw [of "''false''"]
    show ?thesis by (auto simp: scan_literal_def split: if_splits)
  next
    case None
    with a sw [of "''null''"] sw [of "''true''"] sw [of "''false''"] sw [of "''NaN''"]
      sw [of "''Infinity''"] sw [of "''-Infinity''"]
    show ?thesis by (auto simp: scan_literal_def split: if_splits)
  qed
qed

lemma skip_ws_shorter: "skip_ws s = d # r \<Longrightarrow> length r < length s"
  using skip_ws_length [of s] by simp

lemma parse_value_shorter_step:
  assumes pe': "\<forall>s vs r. parse_elems g s = Some (vs, r) \<longrightarrow> length r < length s"
    and pm': "\<forall>s ms r. parse_members g s = Some (ms, r) \<longrightarrow> length r < length s"
    and pv: "parse_value (Suc g) s = Some (v, r)"
  shows "length r < length s"
proof (cases s)
  case Nil
  with pv show ?thesis by simp
next
  case (Cons c t)
  note pe = pe' [rule_format] and pm = pm' [rule_format]
  consider "c = CHR 0x22" | "c \<noteq> CHR 0x22" "c = CHR ''{''"
    | "c \<noteq> CHR 0x22" "c \<noteq> CHR ''{''" "c = CHR ''[''"
    | "c \<noteq> CHR 0x22" "c \<noteq> CHR ''{''" "c \<noteq> CHR ''[''"
    by blast
  then show ?thesis
  proof cases
    case 1
    with pv Cons obtain str where "scanstring t = Some (str, r)"
      by (auto split: option.splits)
    from scanstring_shorter [OF this] Cons show ?thesis by simp
  next
    case 2
    with pv Cons obtain d r' where sk: "skip_ws t = d # r'"
      by (auto split: list.splits)
    note l = skip_ws_shorter [OF sk]
    show ?thesis
    proof (cases "d = CHR ''}''")
      case True
      with pv Cons 2 sk l show ?thesis by simp
    next
      case False
      with pv Cons 2 sk obtain ms where "parse_members g r' = Some (ms, r)"
        by (auto split: if_splits option.splits)
      from pm [OF this] l Cons show ?thesis by simp
    qed
  next
    case 3
    with pv Cons obtain d r' where sk: "skip_ws t = d # r'"
      by (auto split: list.splits)
    note l = skip_ws_shorter [OF sk]
    show ?thesis
    proof (cases "d = CHR '']''")
      case True
      with pv Cons 3 sk l show ?thesis by simp
    next
      case False
      with pv Cons 3 sk obtain vs where "parse_elems g (d # r') = Some (vs, r)"
        by (auto split: if_splits option.splits)
      from pe [OF this] l Cons show ?thesis by simp
    qed
  next
    case 4
    with pv Cons have "scan_literal s = Some (v, r)" by simp
    then show ?thesis by (rule scan_literal_shorter)
  qed
qed

lemma parse_elems_shorter_step:
  assumes pv': "\<forall>s v r. parse_value f s = Some (v, r) \<longrightarrow> length r < length s"
    and pe': "\<forall>g s vs r. f = Suc g \<longrightarrow> parse_elems g s = Some (vs, r) \<longrightarrow> length r < length s"
    and a: "parse_elems f s = Some (vs, r)"
  shows "length r < length s"
proof -
  note pv = pv' [rule_format] and pe = pe' [rule_format]
  from a obtain v r1 where v: "parse_value f s = Some (v, r1)"
    by (auto simp: parse_elems.simps [of f s] split: option.splits)
  note l1 = pv [OF v]
  from a v obtain d r' where sk: "skip_ws r1 = d # r'"
    by (auto simp: parse_elems.simps [of f s] split: list.splits)
  note l2 = skip_ws_shorter [OF sk]
  show ?thesis
  proof (cases "d = CHR '']''")
    case True
    with a v sk l1 l2 show ?thesis by (simp add: parse_elems.simps [of f s])
  next
    case False
    with a v sk obtain g ws where g: "f = Suc g" and "parse_elems g (skip_ws r') = Some (ws, r)"
      by (auto simp: parse_elems.simps [of f s] cons_result_Some split: if_splits nat.splits)
    from pe [OF g this(2)] skip_ws_length [of r'] l1 l2 show ?thesis by simp
  qed
qed

lemma parse_members_shorter_step:
  assumes pv': "\<forall>s v r. parse_value f s = Some (v, r) \<longrightarrow> length r < length s"
    and pm': "\<forall>g s ms r. f = Suc g \<longrightarrow> parse_members g s = Some (ms, r) \<longrightarrow> length r < length s"
    and a: "parse_members f s = Some (ms, r)"
  shows "length r < length s"
proof -
  note pv = pv' [rule_format] and pm = pm' [rule_format]
  from a obtain key r0 where k: "scanstring s = Some (key, r0)"
    by (auto simp: parse_members.simps [of f s] split: option.splits)
  note l0 = scanstring_shorter [OF k]
  from a k obtain c r1 where sk1: "skip_ws r0 = c # r1" and c: "c = CHR '':''"
    by (auto simp: parse_members.simps [of f s] split: list.splits if_splits)
  note l1 = skip_ws_shorter [OF sk1]
  from a k sk1 c obtain v r2 where v: "parse_value f (skip_ws r1) = Some (v, r2)"
    by (auto simp: parse_members.simps [of f s] split: option.splits)
  have l2: "length r2 < length r1" using pv [OF v] skip_ws_length [of r1] by simp
  from a k sk1 c v obtain d r3 where sk3: "skip_ws r2 = d # r3"
    by (auto simp: parse_members.simps [of f s] split: list.splits)
  note l3 = skip_ws_shorter [OF sk3]
  show ?thesis
  proof (cases "d = CHR ''}''")
    case True
    with a k sk1 c v sk3 l0 l1 l2 l3 show ?thesis by (simp add: parse_members.simps [of f s])
  next
    case False
    with a k sk1 c v sk3 obtain q r4 where sk4: "skip_ws r3 = q # r4"
      by (auto simp: parse_members.simps [of f s] split: list.splits if_splits)
    note l4 = skip_ws_shorter [OF sk4]
    from False a k sk1 c v sk3 sk4 obtain g ws where g: "f = Suc g"
        and "parse_members g r4 = Some (ws, r)"
      by (auto simp: parse_members.simps [of f s] cons_result_Some split: if_splits nat.splits)
    from pm [OF g this(2)] l0 l1 l2 l3 l4 show ?thesis by simp
  qed
qed

lemma parse_shorter_all:
  "(\<forall>s v r. parse_value f s = Some (v, r) \<longrightarrow> length r < length s)
   \<and> (\<forall>s vs r. parse_elems f s = Some (vs, r) \<longrightarrow> length r < length s)
   \<and> (\<forall>s ms r. parse_members f s = Some (ms, r) \<longrightarrow> length r < length s)"
proof (induction f)
  case 0
  have pv: "\<forall>s v r. parse_value 0 s = Some (v, r) \<longrightarrow> length r < length s" by simp
  have pe: "\<forall>s vs r. parse_elems 0 s = Some (vs, r) \<longrightarrow> length r < length s"
    using parse_elems_shorter_step [of 0, OF pv] by simp
  have pm: "\<forall>s ms r. parse_members 0 s = Some (ms, r) \<longrightarrow> length r < length s"
    using parse_members_shorter_step [of 0, OF pv] by simp
  from pv pe pm show ?case by blast
next
  case (Suc g)
  from Suc.IH have pe0: "\<forall>s vs r. parse_elems g s = Some (vs, r) \<longrightarrow> length r < length s"
    and pm0: "\<forall>s ms r. parse_members g s = Some (ms, r) \<longrightarrow> length r < length s"
    by blast+
  have pv: "\<forall>s v r. parse_value (Suc g) s = Some (v, r) \<longrightarrow> length r < length s"
    using parse_value_shorter_step [OF pe0 pm0] by blast
  have pe: "\<forall>s vs r. parse_elems (Suc g) s = Some (vs, r) \<longrightarrow> length r < length s"
    using parse_elems_shorter_step [of "Suc g", OF pv] pe0 by blast
  have pm: "\<forall>s ms r. parse_members (Suc g) s = Some (ms, r) \<longrightarrow> length r < length s"
    using parse_members_shorter_step [of "Suc g", OF pv] pm0 by blast
  from pv pe pm show ?case by blast
qed

lemmas parse_value_shorter = parse_shorter_all [THEN conjunct1, rule_format]

lemma parse_value_stable_step:
  assumes pe': "\<forall>s. length s \<le> g \<longrightarrow> parse_elems (Suc g) s = parse_elems g s"
    and pm': "\<forall>s. length s \<le> g \<longrightarrow> parse_members (Suc g) s = parse_members g s"
    and l: "length s \<le> Suc g"
  shows "parse_value (Suc (Suc g)) s = parse_value (Suc g) s"
proof (cases s)
  case Nil
  then show ?thesis by simp
next
  case (Cons c t)
  with l have lt: "length t \<le> g" by simp
  show ?thesis
  proof (cases "skip_ws t")
    case Nil
    with Cons show ?thesis by simp
  next
    case sk: (Cons d r')
    have "length (d # r') \<le> g" using skip_ws_length [of t] lt sk by simp
    then have "parse_elems (Suc g) (d # r') = parse_elems g (d # r')"
      and "parse_members (Suc g) r' = parse_members g r'"
      using pe' pm' by simp_all
    with Cons sk show ?thesis by simp
  qed
qed

lemma parse_elems_stable_step:
  assumes pv': "\<forall>s. length s \<le> f \<longrightarrow> parse_value (Suc f) s = parse_value f s"
    and pe': "\<forall>g s. f = Suc g \<longrightarrow> length s \<le> g \<longrightarrow> parse_elems (Suc g) s = parse_elems g s"
    and l: "length s \<le> f"
  shows "parse_elems (Suc f) s = parse_elems f s"
proof -
  have e: "parse_value (Suc f) s = parse_value f s" using pv' l by simp
  show ?thesis
  proof (cases "parse_value f s")
    case None
    with e show ?thesis by (simp add: parse_elems.simps [of _ s])
  next
    case (Some p)
    obtain v r where p: "p = (v, r)" by (cases p)
    from Some p obtain g where g: "f = Suc g" by (cases f) auto
    have lr: "length r < length s" using parse_value_shorter Some p by blast
    show ?thesis
    proof (cases "skip_ws r")
      case Nil
      with e Some p show ?thesis by (simp add: parse_elems.simps [of _ s])
    next
      case (Cons d r')
      have "length (skip_ws r') \<le> g"
        using skip_ws_length [of r'] skip_ws_shorter [OF Cons] lr l g by simp
      then have "parse_elems (Suc g) (skip_ws r') = parse_elems g (skip_ws r')"
        using pe' g by simp
      with e Some p Cons g show ?thesis by (simp add: parse_elems.simps [of _ s])
    qed
  qed
qed

lemma parse_members_stable_step:
  assumes pv': "\<forall>s. length s \<le> f \<longrightarrow> parse_value (Suc f) s = parse_value f s"
    and pm': "\<forall>g s. f = Suc g \<longrightarrow> length s \<le> g \<longrightarrow> parse_members (Suc g) s = parse_members g s"
    and l: "length s \<le> f"
  shows "parse_members (Suc f) s = parse_members f s"
proof (cases "scanstring s")
  case None
  then show ?thesis by (simp add: parse_members.simps [of _ s])
next
  case (Some p)
  obtain key r0 where p: "p = (key, r0)" by (cases p)
  have l0: "length r0 < length s" using scanstring_shorter Some p by blast
  show ?thesis
  proof (cases "skip_ws r0")
    case Nil
    with Some p show ?thesis by (simp add: parse_members.simps [of _ s])
  next
    case sk1: (Cons c r1)
    have l1: "length (skip_ws r1) \<le> f"
      using skip_ws_length [of r1] skip_ws_shorter [OF sk1] l0 l by simp
    then have e: "parse_value (Suc f) (skip_ws r1) = parse_value f (skip_ws r1)"
      using pv' by simp
    show ?thesis
    proof (cases "parse_value f (skip_ws r1)")
      case None
      with e Some p sk1 show ?thesis by (simp add: parse_members.simps [of _ s])
    next
      case v: (Some pv)
      obtain v r2 where pv: "pv = (v, r2)" by (cases pv)
      from v pv obtain g where g: "f = Suc g" by (cases f) auto
      have l2: "length r2 < length (skip_ws r1)" using parse_value_shorter v pv by blast
      show ?thesis
      proof (cases "skip_ws r2")
        case Nil
        with e Some p sk1 v pv show ?thesis by (simp add: parse_members.simps [of _ s])
      next
        case sk3: (Cons d r3)
        show ?thesis
        proof (cases "skip_ws r3")
          case Nil
          with e Some p sk1 v pv sk3 show ?thesis by (simp add: parse_members.simps [of _ s])
        next
          case sk4: (Cons q r4)
          have "length r4 \<le> g"
            using skip_ws_shorter [OF sk4] skip_ws_shorter [OF sk3] l2 l1 g by simp
          then have "parse_members (Suc g) r4 = parse_members g r4" using pm' g by simp
          with e Some p sk1 v pv sk3 sk4 g show ?thesis
            by (simp add: parse_members.simps [of _ s])
        qed
      qed
    qed
  qed
qed

lemma fuel_stable_all:
  "(\<forall>s. length s \<le> f \<longrightarrow> parse_value (Suc f) s = parse_value f s)
   \<and> (\<forall>s. length s \<le> f \<longrightarrow> parse_elems (Suc f) s = parse_elems f s)
   \<and> (\<forall>s. length s \<le> f \<longrightarrow> parse_members (Suc f) s = parse_members f s)"
proof (induction f)
  case 0
  have pv: "\<forall>s. length s \<le> 0 \<longrightarrow> parse_value (Suc 0) s = parse_value 0 s" by simp
  have pe: "\<forall>s. length s \<le> 0 \<longrightarrow> parse_elems (Suc 0) s = parse_elems 0 s"
    using parse_elems_stable_step [of 0, OF pv] by simp
  have pm: "\<forall>s. length s \<le> 0 \<longrightarrow> parse_members (Suc 0) s = parse_members 0 s"
    using parse_members_stable_step [of 0, OF pv] by simp
  from pv pe pm show ?case by blast
next
  case (Suc g)
  from Suc.IH have pe0: "\<forall>s. length s \<le> g \<longrightarrow> parse_elems (Suc g) s = parse_elems g s"
    and pm0: "\<forall>s. length s \<le> g \<longrightarrow> parse_members (Suc g) s = parse_members g s"
    by blast+
  have pv: "\<forall>s. length s \<le> Suc g \<longrightarrow> parse_value (Suc (Suc g)) s = parse_value (Suc g) s"
    using parse_value_stable_step [OF pe0 pm0] by blast
  have pe: "\<forall>s. length s \<le> Suc g \<longrightarrow> parse_elems (Suc (Suc g)) s = parse_elems (Suc g) s"
    using parse_elems_stable_step [of "Suc g", OF pv] pe0 by blast
  have pm: "\<forall>s. length s \<le> Suc g \<longrightarrow> parse_members (Suc (Suc g)) s = parse_members (Suc g) s"
    using parse_members_stable_step [of "Suc g", OF pv] pm0 by blast
  from pv pe pm show ?case by blast
qed

lemma fuel_enough: "length s \<le> f \<Longrightarrow> parse_value f s = parse_value (length s) s"
proof (induction "f - length s" arbitrary: f)
  case 0
  then show ?case by simp
next
  case (Suc d)
  then obtain g where g: "f = Suc g" "length s \<le> g" "d = g - length s" by (cases f) auto
  have "parse_value (Suc g) s = parse_value g s"
    using fuel_stable_all [of g] g(2) by blast
  with Suc.hyps(1) [OF g(3) g(2)] g(1) show ?case by simp
qed

section \<open>Claims\<close>

text \<open>
  C1: when some record's title equals the given title up to case, \<open>remove_book\<close> deletes
  exactly the first such record in list order, so the list gets one shorter, saves the
  new list and returns \<open>True\<close>.  Of two records whose titles both match, only the first
  goes.
\<close>

theorem remove_book_first_match:
  assumes "\<exists>b \<in> set lib. lower (title b) = lower t"
  shows "(\<exists>i < length lib.
           lower (title (lib ! i)) = lower t
         \<and> (\<forall>j < i. lower (title (lib ! j)) \<noteq> lower t)
         \<and> remove_book lib t st =
             (True, take i lib @ drop (Suc i) lib,
              save_library (take i lib @ drop (Suc i) lib) st))
       \<and> fst (remove_book lib t st) = True
       \<and> length (fst (snd (remove_book lib t st))) = length lib - 1
       \<and> writes (snd (snd (remove_book lib t st))) = writes st + 1
       \<and> content (snd (snd (remove_book lib t st)))
            = Some (json_dumps (library_json (fst (snd (remove_book lib t st)))))"
proof -
  let ?P = "\<lambda>b. lower (title b) = lower t"
  from assms obtain b where b: "find ?P lib = Some b"
    by (cases "find ?P lib") (auto simp: find_None_iff)
  then obtain i where i: "i < length lib" "lib ! i = b" "?P b" "\<forall>j < i. \<not> ?P (lib ! j)"
    using find_first_index [of ?P lib b] by blast
  have "\<forall>j < i. lib ! j \<noteq> lib ! i" using i by metis
  then have r: "remove1 b lib = take i lib @ drop (Suc i) lib"
    using remove1_first_index [of i lib] i by simp
  have e: "remove_book lib t st = (True, take i lib @ drop (Suc i) lib,
              save_library (take i lib @ drop (Suc i) lib) st)"
    using b r by (simp add: remove_book_def remove_loop_find)
  have l: "length (take i lib @ drop (Suc i) lib) = length lib - 1"
    using i(1) by simp
  have "fst (remove_book lib t st) = True"
    and "length (fst (snd (remove_book lib t st))) = length lib - 1"
    and "writes (snd (snd (remove_book lib t st))) = writes st + 1"
    and "content (snd (snd (remove_book lib t st)))
            = Some (json_dumps (library_json (fst (snd (remove_book lib t st)))))"
    using l by (simp_all add: e save_library_def)
  with e i show ?thesis by blast
qed

theorem remove_book_first_match_witness:
  "(\<exists>b \<in> set [dune, hobbit, dune_upper]. lower (title b) = lower ''dune'')
   \<and> remove_book [dune, hobbit, dune_upper] ''dune'' empty_storage =
       (True, [hobbit, dune_upper], save_library [hobbit, dune_upper] empty_storage)"
proof -
  let ?lib = "[dune, hobbit, dune_upper]"
  have h: "\<exists>b \<in> set ?lib. lower (title b) = lower ''dune''"
    by code_simp
  from remove_book_first_match [OF h, of empty_storage]
  obtain i where i: "\<forall>j < i. lower (title (?lib ! j)) \<noteq> lower ''dune''"
    and e: "remove_book ?lib ''dune'' empty_storage =
             (True, take i ?lib @ drop (Suc i) ?lib,
              save_library (take i ?lib @ drop (Suc i) ?lib) empty_storage)"
    by blast
  have "lower (title (?lib ! 0)) = lower ''dune''" by code_simp
  with i have "i = 0" by (metis not_gr_zero)
  with e h show ?thesis by simp
qed

text \<open>
  C2: \<open>search_books\<close> returns, in their original order, exactly the records whose
  lower-cased title or lower-cased author contains the lower-cased query as a contiguous
  run; the empty query returns every record; the query \<open>TOLKIEN\<close> finds every record
  whose author is \<open>J.R.R. Tolkien\<close>.
\<close>

theorem search_books_spec:
  "fst (search_books lib q st) =
     filter (\<lambda>b. (\<exists>p r. lower (title b) = p @ lower q @ r)
               \<or> (\<exists>p r. lower (author b) = p @ lower q @ r)) lib
   \<and> fst (search_books lib [] st) = lib
   \<and> (\<forall>b \<in> set lib. author b = ''J.R.R. Tolkien''
         \<longrightarrow> b \<in> set (fst (search_books lib ''TOLKIEN'' st)))"
proof (intro conjI ballI impI)
  show "fst (search_books lib q st) =
     filter (\<lambda>b. (\<exists>p r. lower (title b) = p @ lower q @ r)
               \<or> (\<exists>p r. lower (author b) = p @ lower q @ r)) lib"
    by (simp add: search_books_def str_in_iff)
  show "fst (search_books lib [] st) = lib"
    by (simp add: search_books_def lower_def str_in_empty)
  fix b assume b: "b \<in> set lib" "author b = ''J.R.R. Tolkien''"
  have "str_in (lower ''TOLKIEN'') (lower ''J.R.R. Tolkien'')" by code_simp
  with b show "b \<in> set (fst (search_books lib ''TOLKIEN'' st))"
    by (simp add: search_books_def)
qed

theorem search_books_spec_witness:
  "hobbit \<in> set [dune, hobbit] \<and> author hobbit = ''J.R.R. Tolkien''
   \<and> hobbit \<in> set (fst (search_books [dune, hobbit] ''TOLKIEN'' \<lparr>content = None, writes = 0\<rparr>))"
  using search_books_spec [of "[dune, hobbit]" "[]" "\<lparr>content = None, writes = 0\<rparr>"]
  by (simp add: hobbit_def)



text \<open>
  C5: when no record's title equals the given title up to case, \<open>remove_book\<close> returns
  \<open>False\<close> and leaves the list and the storage, its write count included, as they were.
\<close>

theorem remove_book_no_match:
  "\<forall>b \<in> set lib. lower (title b) \<noteq> lower t \<Longrightarrow> remove_book lib t st = (False, lib, st)"
proof -
  assume "\<forall>b \<in> set lib. lower (title b) \<noteq> lower t"
  then have "find (\<lambda>b. lower (title b) = lower t) lib = None"
    by (simp add: find_None_iff)
  then show ?thesis by (simp add: remove_book_def remove_loop_find)
qed

theorem remove_book_no_match_witness:
  "list_all (\<lambda>b. lower (title b) \<noteq> lower ''Emma'') [dune, hobbit]
   \<and> remove_book [dune, hobbit] ''Emma'' empty_storage = (False, [dune, hobbit], empty_storage)"
proof -
  have h: "\<forall>b \<in> set [dune, hobbit]. lower (title b) \<noteq> lower ''Emma''"
    by code_simp
  from h remove_book_no_match [OF h, of empty_storage] show ?thesis
    by (simp add: list_all_iff)
qed

text \<open>
  C7: \<open>add_book\<close> appends one record built from its arguments: the list is one longer,
  the old records keep their places, the last record has exactly the given fields, a
  record equal to an existing one is appended all the same, and the new list is saved.
\<close>

theorem add_book_spec:
  "add_book lib t a y g r st =
     ((), lib @ [\<lparr>title = t, author = a, year = y, genre = g, read = r\<rparr>],
      save_library (lib @ [\<lparr>title = t, author = a, year = y, genre = g, read = r\<rparr>]) st)
   \<and> length (fst (snd (add_book lib t a y g r st))) = length lib + 1
   \<and> take (length lib) (fst (snd (add_book lib t a y g r st))) = lib
   \<and> last (fst (snd (add_book lib t a y g r st)))
        = \<lparr>title = t, author = a, year = y, genre = g, read = r\<rparr>
   \<and> count_list (fst (snd (add_book lib t a y g r st)))
        \<lparr>title = t, author = a, year = y, genre = g, read = r\<rparr>
        = count_list lib \<lparr>title = t, author = a, year = y, genre = g, read = r\<rparr> + 1
   \<and> writes (snd (snd (add_book lib t a y g r st))) = writes st + 1
   \<and> content (snd (snd (add_book lib t a y g r st)))
        = Some (json_dumps (library_json (fst (snd (add_book lib t a y g r st)))))"
  by (simp add: add_book_def Let_def save_library_def)

text \<open>
  C9: on a non-empty library \<open>get_random_book\<close> returns the record at the index the
  generator draws, an element of the library; as many indices yield a given record as the
  record has occurrences, so a uniform index gives a uniform draw over the positions.  On
  the empty library it returns \<open>None\<close>.
\<close>

theorem get_random_book_spec:
  "(lib \<noteq> [] \<longrightarrow> rng (length lib) < length lib \<longrightarrow>
      (\<exists>b \<in> set lib. fst (get_random_book lib rng st) = Some b))
   \<and> fst (get_random_book [] rng st) = None
   \<and> card {k. k < length lib \<and> fst (get_random_book lib (\<lambda>n. k) st) = Some x}
        = count_list lib x"
proof -
  have 1: "lib \<noteq> [] \<longrightarrow> rng (length lib) < length lib \<longrightarrow>
      (\<exists>b \<in> set lib. fst (get_random_book lib rng st) = Some b)"
    by (simp add: get_random_book_def)
  have 2: "fst (get_random_book [] rng st) = None"
    by (simp add: get_random_book_def)
  have "{k. k < length lib \<and> fst (get_random_book lib (\<lambda>n. k) st) = Some x}
          = {k. k < length lib \<and> lib ! k = x}"
    by (auto simp: get_random_book_def)
  then have 3: "card {k. k < length lib \<and> fst (get_random_book lib (\<lambda>n. k) st) = Some x}
        = count_list lib x"
    by (simp add: count_idx)
  from 1 2 3 show ?thesis by blast
qed

theorem get_random_book_spec_witness:
  "[dune, hobbit] \<noteq> [] \<and> (\<lambda>n. n - 1) (length [dune, hobbit]) < length [dune, hobbit]
   \<and> (\<exists>b \<in> set [dune, hobbit].
         fst (get_random_book [dune, hobbit] (\<lambda>n. n - 1) empty_storage) = Some b)"
proof -
  have h: "[dune, hobbit] \<noteq> []" "(\<lambda>n. n - 1) (length [dune, hobbit]) < length [dune, hobbit]"
    by simp_all
  with get_random_book_spec [of "[dune, hobbit]" "\<lambda>n. n - 1" empty_storage dune]
  show ?thesis by blast
qed

text \<open>
  C10: \<open>search_books\<close>, \<open>calculate_statistics\<close> and \<open>get_random_book\<close> hand back the list
  and the storage unchanged; in particular the write count stays.
\<close>

theorem read_only_frame:
  "snd (search_books lib q st) = (lib, st)
   \<and> snd (calculate_statistics lib st) = (lib, st)
   \<and> snd (get_random_book lib rng st) = (lib, st)"
  by (simp add: search_books_def calculate_statistics_def get_random_book_def Let_def)




text \<open>
  C6: loading after saving a list of book records returns the list of their dicts, each
  with the five fields of its record; different lists have different values.
\<close>

theorem save_load_roundtrip:
  "load_library (save_library lib st) = library_json lib \<and> inj library_json"
proof -
  have "inj (map book_json)" using inj_book_json by simp
  then have "inj library_json" by (simp add: library_json_def [abs_def] inj_def)
  then show ?thesis by (simp add: load_after_save)
qed

text \<open>
  C8: after \<open>add_book\<close>, and after a \<open>remove_book\<close> that found a match, the file holds
  the dump of the list as it is now, loading it returns that list, and the text does not
  depend on what the file held before.
\<close>

theorem mutation_synchronized:
  "content (snd (snd (add_book lib t a y g r st)))
      = Some (json_dumps (library_json (fst (snd (add_book lib t a y g r st)))))
   \<and> load_library (snd (snd (add_book lib t a y g r st)))
      = library_json (fst (snd (add_book lib t a y g r st)))
   \<and> content (snd (snd (add_book lib t a y g r st)))
      = content (snd (snd (add_book lib t a y g r st')))
   \<and> ((\<exists>b \<in> set lib. lower (title b) = lower t) \<longrightarrow>
        content (snd (snd (remove_book lib t st)))
          = Some (json_dumps (library_json (fst (snd (remove_book lib t st)))))
      \<and> load_library (snd (snd (remove_book lib t st)))
          = library_json (fst (snd (remove_book lib t st)))
      \<and> content (snd (snd (remove_book lib t st)))
          = content (snd (snd (remove_book lib t st'))))"
proof -
  let ?L = "lib @ [\<lparr>title = t, author = a, year = y, genre = g, read = r\<rparr>]"
  have add: "add_book lib t a y g r s = ((), ?L, save_library ?L s)" for s
    by (simp add: add_book_def Let_def)
  have c: "content (save_library l s) = Some (json_dumps (library_json l))" for l s
    by (simp add: save_library_def)
  have 1: "content (snd (snd (add_book lib t a y g r st)))
      = Some (json_dumps (library_json (fst (snd (add_book lib t a y g r st)))))"
    by (simp add: add c)
  have 2: "load_library (snd (snd (add_book lib t a y g r st)))
      = library_json (fst (snd (add_book lib t a y g r st)))"
    by (simp add: add load_after_save)
  have 3: "content (snd (snd (add_book lib t a y g r st)))
      = content (snd (snd (add_book lib t a y g r st')))"
    by (simp add: add c)
  have 4: "content (snd (snd (remove_book lib t st)))
          = Some (json_dumps (library_json (fst (snd (remove_book lib t st)))))
      \<and> load_library (snd (snd (remove_book lib t st)))
          = library_json (fst (snd (remove_book lib t st)))
      \<and> content (snd (snd (remove_book lib t st)))
          = content (snd (snd (remove_book lib t st')))"
    if "\<exists>b \<in> set lib. lower (title b) = lower t"
  proof -
    from that obtain b where b: "find (\<lambda>b. lower (title b) = lower t) lib = Some b"
      by (cases "find (\<lambda>b. lower (title b) = lower t) lib") (auto simp: find_None_iff)
    have rm: "remove_book lib t s = (True, remove1 b lib, save_library (remove1 b lib) s)" for s
      using b by (simp add: remove_book_def remove_loop_find)
    show ?thesis by (simp add: rm c load_after_save)
  qed
  from 1 2 3 4 show ?thesis by blast
qed

theorem mutation_synchronized_witness:
  "(\<exists>b \<in> set [dune, hobbit]. lower (title b) = lower ''the hobbit'')
   \<and> content (snd (snd (remove_book [dune, hobbit] ''the hobbit'' empty_storage)))
       = Some (json_dumps (library_json (fst (snd (remove_book [dune, hobbit] ''the hobbit'' empty_storage)))))
   \<and> load_library (snd (snd (remove_book [dune, hobbit] ''the hobbit'' empty_storage)))
       = library_json (fst (snd (remove_book [dune, hobbit] ''the hobbit'' empty_storage)))"
proof -
  have h: "\<exists>b \<in> set [dune, hobbit]. lower (title b) = lower ''the hobbit''"
    by code_simp
  from h mutation_synchronized [of "[dune, hobbit]" "''the hobbit''" undefined undefined undefined undefined empty_storage empty_storage]
  show ?thesis by blast
qed

end
